theory Spec2Isabelle
  imports Main
begin

unbundle bit_operations_syntax

section \<open>Data model of package lexer\<close>

text \<open>
  A Go \<open>string\<close> is a sequence of bytes; it is modelled as \<open>string\<close> (a list of
  8-bit \<open>char\<close>s), so \<open>length\<close> is Go's \<open>len\<close> and slicing is by byte offset.
  A \<open>rune\<close> is Go's \<open>int32\<close>; every rune that occurs here lies between 0 and
  \<open>0x10FFFF\<close>, so it is modelled as an \<open>int\<close> without wrap-around.  Go's \<open>int\<close>
  offsets (\<open>start\<close>, \<open>Position\<close>, \<open>width\<close>) are \<open>int\<close> as well: they are
  bounded by the length of the input, far below \<open>2^63\<close>.
\<close>

type_synonym rune = int

datatype ItemKind =
    WhiteSpace
  | LineBreak
  | NewLine
  | Text
  | Digit
  | StringQuote
  | SingleLineComment
  | MultiLineCommentStart
  | MultiLineCommentEnd
  | Operator
  | EOF
  | ItemError

record Item =
  item_Position :: int
  Kind :: ItemKind
  Value :: string

definition eof :: rune where
  "eof = 0"

text \<open>
  \<open>stateFn\<close> is the type of the state functions; the two that exist are named by a
  constructor each, and Go's \<open>nil\<close> state function is \<open>None\<close>.
\<close>

datatype stateFn = LexText | LexWhitespace

text \<open>
  The channel \<open>Items\<close> is modelled by the sequence of items sent on it so far, in the
  order of the sends.  The scan runs in its own goroutine and blocks on a full channel;
  the model describes the sequence a consumer that drains the channel receives.
\<close>

record Lexer =
  input :: string
  start :: int
  Position :: int
  width :: int
  state :: "stateFn option"
  Items :: "Item list"

text \<open>
  A slice expression or an index out of range panics, and a panic ends the program:
  a function that can panic returns a sum, with the panic as \<open>Inl\<close>.
\<close>

datatype panic = SliceBoundsOutOfRange | IndexOutOfRange

section \<open>The Go standard library functions the lexer calls\<close>

definition RuneError :: rune where
  "RuneError = 0xFFFD"

definition byte :: "char \<Rightarrow> int" where
  "byte c = of_char c"

text \<open>
  \<open>utf8.DecodeRuneInString\<close> of the Go standard library: the first UTF-8 encoding in
  \<open>s\<close> and its width in bytes; \<open>(RuneError, 0)\<close> for the empty string and
  \<open>(RuneError, 1)\<close> for an encoding that is invalid (a stray continuation byte, a byte
  that starts no encoding, a truncated or overlong sequence, a surrogate, a value above
  \<open>0x10FFFF\<close>).  The case analysis is the library's: the first byte gives the size and
  the accepted range of the second byte.
\<close>

definition first_size :: "int \<Rightarrow> nat" where
  "first_size s0 = (if s0 < 0xE0 then 2 else if s0 < 0xF0 then 3 else 4)"

definition accept_lo :: "int \<Rightarrow> int" where
  "accept_lo s0 = (if s0 = 0xE0 then 0xA0 else if s0 = 0xF0 then 0x90 else 0x80)"

definition accept_hi :: "int \<Rightarrow> int" where
  "accept_hi s0 = (if s0 = 0xED then 0x9F else if s0 = 0xF4 then 0x8F else 0xBF)"

definition decode_multi :: "string \<Rightarrow> int \<Rightarrow> nat \<Rightarrow> int \<Rightarrow> int \<Rightarrow> rune \<times> int" where
  "decode_multi s s0 sz lo hi =
    (if length s < sz then (RuneError, 1)
     else
       let s1 = byte (s ! 1) in
       if s1 < lo \<or> hi < s1 then (RuneError, 1)
       else if sz \<le> 2 then (push_bit 6 (s0 AND 0x1F) OR (s1 AND 0x3F), 2)
       else
         let s2 = byte (s ! 2) in
         if s2 < 0x80 \<or> 0xBF < s2 then (RuneError, 1)
         else if sz \<le> 3 then
           (push_bit 12 (s0 AND 0x0F) OR push_bit 6 (s1 AND 0x3F) OR (s2 AND 0x3F), 3)
         else
           let s3 = byte (s ! 3) in
           if s3 < 0x80 \<or> 0xBF < s3 then (RuneError, 1)
           else
             (push_bit 18 (s0 AND 0x07) OR push_bit 12 (s1 AND 0x3F)
                OR push_bit 6 (s2 AND 0x3F) OR (s3 AND 0x3F), 4))"

definition DecodeRuneInString :: "string \<Rightarrow> rune \<times> int" where
  "DecodeRuneInString s =
    (if length s < 1 then (RuneError, 0)
     else
       let s0 = byte (s ! 0) in
       if s0 < 0x80 then (s0, 1)
       else if s0 < 0xC2 \<or> 0xF4 < s0 then (RuneError, 1)
       else decode_multi s s0 (first_size s0) (accept_lo s0) (accept_hi s0))"

text \<open>
  \<open>unicode.IsSpace\<close> of the Go standard library: in Latin-1 the characters
  \<open>\t \n \v \f \r\<close>, space, U+0085 and U+00A0; above Latin-1 the code points with the
  Unicode property White_Space.
\<close>

definition IsSpace :: "rune \<Rightarrow> bool" where
  "IsSpace r =
    (if 0 \<le> r \<and> r \<le> 0xFF then
       r = 0x09 \<or> r = 0x0A \<or> r = 0x0B \<or> r = 0x0C \<or> r = 0x0D \<or> r = 0x20
         \<or> r = 0x85 \<or> r = 0xA0
     else
       r = 0x1680 \<or> (0x2000 \<le> r \<and> r \<le> 0x200A) \<or> r = 0x2028 \<or> r = 0x2029
         \<or> r = 0x202F \<or> r = 0x205F \<or> r = 0x3000)"

section \<open>Cursor operations\<close>

text \<open>\<open>s[a:b]\<close>: panics unless \<open>0 \<le> a \<le> b \<le> len(s)\<close>.\<close>

definition slice :: "string \<Rightarrow> int \<Rightarrow> int \<Rightarrow> panic + string" where
  "slice s a b =
    (if 0 \<le> a \<and> a \<le> b \<and> b \<le> int (length s)
     then Inr (take (nat (b - a)) (drop (nat a) s))
     else Inl SliceBoundsOutOfRange)"

definition ignore :: "Lexer \<Rightarrow> Lexer" where
  "ignore l = l\<lparr>start := Position l\<rparr>"

definition emit :: "ItemKind \<Rightarrow> Lexer \<Rightarrow> panic + Lexer" where
  "emit k l =
    (case slice (input l) (start l) (Position l) of
       Inl e \<Rightarrow> Inl e
     | Inr accumulation \<Rightarrow>
         Inr (ignore (l\<lparr>Items := Items l @
           [\<lparr>item_Position = start l, Kind = k, Value = accumulation\<rparr>]\<rparr>)))"

definition next_rune :: "Lexer \<Rightarrow> panic + (rune \<times> Lexer)" where
  "next_rune l =
    (if Position l \<ge> int (length (input l)) then Inr (eof, l\<lparr>width := 0\<rparr>)
     else
       case slice (input l) (Position l) (int (length (input l))) of
         Inl e \<Rightarrow> Inl e
       | Inr rest \<Rightarrow>
           (case DecodeRuneInString rest of
              (r, w) \<Rightarrow> Inr (r, l\<lparr>width := w, Position := Position l + w\<rparr>)))"

definition backup :: "Lexer \<Rightarrow> Lexer" where
  "backup l = l\<lparr>Position := Position l - 1\<rparr>"

definition errorf :: "string \<Rightarrow> Lexer \<Rightarrow> stateFn option \<times> Lexer" where
  "errorf msg l =
    (None, l\<lparr>Items := Items l @ [\<lparr>item_Position = 0, Kind = ItemError, Value = msg\<rparr>]\<rparr>)"

section \<open>State functions\<close>

definition lexEOF :: "ItemKind \<Rightarrow> Lexer \<Rightarrow> panic + (stateFn option \<times> Lexer)" where
  "lexEOF k l =
    (case emit k (if start l > Position l then ignore l else l) of
       Inl e \<Rightarrow> Inl e
     | Inr l1 \<Rightarrow>
         (case emit EOF l1 of
            Inl e \<Rightarrow> Inl e
          | Inr l2 \<Rightarrow> Inr (None, l2)))"

text \<open>
  A rune that is decoded from a string that is not empty has a width of at least one
  byte and of no more than the string: \<open>next_rune\<close> moves forward, which is why the
  loops of the state functions end.
\<close>

lemma decode_multi_width:
  assumes "decode_multi s s0 sz lo hi = (r, w)" and "0 < length s"
    and "sz = 2 \<or> sz = 3 \<or> sz = 4"
  shows "1 \<le> w \<and> w \<le> int (length s)"
  using assms unfolding decode_multi_def Let_def
  by (auto simp: Suc_le_eq split: if_splits)

lemma first_size_cases: "first_size s0 = 2 \<or> first_size s0 = 3 \<or> first_size s0 = 4"
  by (simp add: first_size_def)

lemma DecodeRuneInString_width:
  assumes "DecodeRuneInString s = (r, w)" and "s \<noteq> []"
  shows "1 \<le> w \<and> w \<le> int (length s)"
proof -
  have len: "0 < length s" using assms by simp
  show ?thesis
    using assms(1) len decode_multi_width[OF _ len first_size_cases]
    unfolding DecodeRuneInString_def Let_def by (auto simp: Suc_le_eq split: if_splits)
qed

lemma next_rune_advances:
  assumes "next_rune l = Inr (r, l1)" and "r \<noteq> eof"
  shows "Position l < Position l1" and "Position l < int (length (input l))"
    and "input l1 = input l"
proof -
  from assms have lt: "Position l < int (length (input l))"
    by (auto simp: next_rune_def split: if_splits)
  then show "Position l < int (length (input l))" .
  from assms lt obtain rest where
    rest: "slice (input l) (Position l) (int (length (input l))) = Inr rest"
    by (auto simp: next_rune_def split: sum.splits)
  then have "rest \<noteq> []" using lt
    by (auto simp: slice_def split: if_splits)
  then have "1 \<le> snd (DecodeRuneInString rest)"
    using DecodeRuneInString_width[of rest] by (cases "DecodeRuneInString rest") simp
  with assms lt rest show "Position l < Position l1" "input l1 = input l"
    by (auto simp: next_rune_def split: prod.splits)
qed

function lexText :: "Lexer \<Rightarrow> panic + (stateFn option \<times> Lexer)" where
  "lexText l =
    (case next_rune l of
       Inl e \<Rightarrow> Inl e
     | Inr (r, l1) \<Rightarrow>
         if r = eof then lexEOF Text l1
         else if IsSpace r then
           (let l2 = backup l1 in
            if Position l2 > start l2 then
              (case emit Text l2 of
                 Inl e \<Rightarrow> Inl e
               | Inr l3 \<Rightarrow> Inr (Some LexWhitespace, l3))
            else Inr (Some LexWhitespace, l2))
         else lexText l1)"
  by pat_completeness auto
termination
proof (relation "measure (\<lambda>l. nat (int (length (input l)) - Position l))")
  show "wf (measure (\<lambda>l. nat (int (length (input l)) - Position l)))" by simp
next
  fix l x2 r l1
  assume "next_rune l = Inr x2" "(r, l1) = x2" "r \<noteq> eof" "\<not> IsSpace r"
  then have "next_rune l = Inr (r, l1)" by simp
  from next_rune_advances[OF this \<open>r \<noteq> eof\<close>]
  show "(l1, l) \<in> measure (\<lambda>l. nat (int (length (input l)) - Position l))"
    by simp
qed

declare lexText.simps [simp del]

function lexWhitespace :: "Lexer \<Rightarrow> panic + (stateFn option \<times> Lexer)" where
  "lexWhitespace l =
    (case next_rune l of
       Inl e \<Rightarrow> Inl e
     | Inr (r, l1) \<Rightarrow>
         if r = eof then lexEOF WhiteSpace l1
         else if \<not> IsSpace r then
           (let l2 = backup l1 in
            if Position l2 > start l2 then
              (case emit WhiteSpace l2 of
                 Inl e \<Rightarrow> Inl e
               | Inr l3 \<Rightarrow> Inr (Some LexText, l3))
            else Inr (Some LexText, l2))
         else lexWhitespace l1)"
  by pat_completeness auto
termination
proof (relation "measure (\<lambda>l. nat (int (length (input l)) - Position l))")
  show "wf (measure (\<lambda>l. nat (int (length (input l)) - Position l)))" by simp
next
  fix l x2 r l1
  assume "next_rune l = Inr x2" "(r, l1) = x2" "r \<noteq> eof" "\<not> \<not> IsSpace r"
  then have "next_rune l = Inr (r, l1)" by simp
  from next_rune_advances[OF this \<open>r \<noteq> eof\<close>]
  show "(l1, l) \<in> measure (\<lambda>l. nat (int (length (input l)) - Position l))"
    by simp
qed

declare lexWhitespace.simps [simp del]

text \<open>The call \<open>fn(l)\<close> of a state function value.\<close>

fun call :: "stateFn \<Rightarrow> Lexer \<Rightarrow> panic + (stateFn option \<times> Lexer)" where
  "call LexText l = lexText l"
| "call LexWhitespace l = lexWhitespace l"

text \<open>
  The rune the next call of \<open>next_rune\<close> reads, and whether a state function hands over
  on it (text mode on a space, whitespace mode on anything else): the two enter the
  measure under which the loop of \<open>scan\<close> terminates.
\<close>

definition peek :: "Lexer \<Rightarrow> rune option" where
  "peek l = (case next_rune l of Inl e \<Rightarrow> None | Inr (r, l1) \<Rightarrow> Some r)"

definition hands_over :: "stateFn \<Rightarrow> Lexer \<Rightarrow> bool" where
  "hands_over fn l =
    (case peek l of
       None \<Rightarrow> False
     | Some r \<Rightarrow> r \<noteq> eof \<and> (case fn of LexText \<Rightarrow> IsSpace r | LexWhitespace \<Rightarrow> \<not> IsSpace r))"

definition scan_measure :: "stateFn option \<times> Lexer \<Rightarrow> nat" where
  "scan_measure p =
    (case p of
       (None, l) \<Rightarrow> 0
     | (Some fn, l) \<Rightarrow>
         1 + 2 * nat (int (length (input l)) - Position l) + (if hands_over fn l then 1 else 0))"

lemma peek_cong:
  "input l' = input l \<Longrightarrow> Position l' = Position l \<Longrightarrow> peek l' = peek l"
  by (simp add: peek_def next_rune_def split: sum.splits prod.splits)

lemma emit_fields:
  assumes "emit k l = Inr l'"
  shows "input l' = input l" and "Position l' = Position l" and "start l' = Position l"
    and "Items l' = Items l @ [\<lparr>item_Position = start l, Kind = k,
      Value = take (nat (Position l - start l)) (drop (nat (start l)) (input l))\<rparr>]"
    and "0 \<le> start l" and "start l \<le> Position l" and "Position l \<le> int (length (input l))"
  using assms by (auto simp: emit_def slice_def ignore_def split: if_splits)

lemma next_rune_width:
  assumes "next_rune l = Inr (r, l1)" and "r \<noteq> eof"
  shows "1 \<le> width l1" and "Position l1 = Position l + width l1"
    and "Position l1 \<le> int (length (input l))" and "0 \<le> Position l"
    and "start l1 = start l" and "Items l1 = Items l"
    and "DecodeRuneInString (drop (nat (Position l)) (input l)) = (r, width l1)"
proof -
  from assms have lt: "Position l < int (length (input l))"
    by (auto simp: next_rune_def split: if_splits)
  from assms lt have nonneg: "0 \<le> Position l"
    by (auto simp: next_rune_def slice_def split: if_splits)
  let ?rest = "drop (nat (Position l)) (input l)"
  obtain r' w where dec: "DecodeRuneInString ?rest = (r', w)"
    by (cases "DecodeRuneInString ?rest")
  have ne: "?rest \<noteq> []" using lt nonneg by simp
  from assms(1) lt nonneg dec have eqs: "r = r'" "l1 = l\<lparr>width := w, Position := Position l + w\<rparr>"
    by (auto simp: next_rune_def slice_def)
  from DecodeRuneInString_width[OF dec ne] have w: "1 \<le> w" "w \<le> int (length ?rest)"
    by simp_all
  show "1 \<le> width l1" using eqs w by simp
  show "Position l1 = Position l + width l1" using eqs by simp
  show "Position l1 \<le> int (length (input l))" using eqs w lt nonneg by simp
  show "0 \<le> Position l" by (rule nonneg)
  show "start l1 = start l" using eqs by simp
  show "Items l1 = Items l" using eqs by simp
  show "DecodeRuneInString ?rest = (r, width l1)" using eqs dec by simp
qed

lemma lexEOF_result:
  assumes "lexEOF k l = Inr (fn, l')"
  shows "fn = None"
  using assms by (auto simp: lexEOF_def split: sum.splits)

lemma backup_fields:
  "input (backup l) = input l" "Position (backup l) = Position l - 1"
  "start (backup l) = start l" "Items (backup l) = Items l"
  by (simp_all add: backup_def)

lemma hands_over_step:
  assumes "next_rune l = Inr (r, l1)" and "r \<noteq> eof" and "l' = backup l1 \<or> emit k (backup l1) = Inr l'"
  shows "input l' = input l \<and> Position l' = Position l1 - 1"
  using assms next_rune_advances(3)[OF assms(1,2)]
  by (auto simp: backup_fields dest: emit_fields(1,2))

lemma lexText_progress:
  "lexText l = Inr (Some fn', l') \<Longrightarrow>
     fn' = LexWhitespace \<and> input l' = input l \<and> Position l < int (length (input l)) \<and>
     (Position l < Position l' \<or> (Position l' = Position l \<and> hands_over LexText l))"
proof (induction l rule: lexText.induct)
  case (1 l)
  from "1.prems" obtain r l1 where nr: "next_rune l = Inr (r, l1)"
    by (subst (asm) lexText.simps) (auto split: sum.splits)
  show ?case
  proof (cases "r = eof")
    case True
    with "1.prems" nr have "lexEOF Text l1 = Inr (Some fn', l')"
      by (subst (asm) lexText.simps) simp
    then show ?thesis using lexEOF_result by blast
  next
    case ne: False
    note adv = next_rune_advances[OF nr ne] and wd = next_rune_width[OF nr ne]
    show ?thesis
    proof (cases "IsSpace r")
      case True
      with "1.prems" nr ne have fn: "fn' = LexWhitespace"
        and l': "l' = backup l1 \<or> emit Text (backup l1) = Inr l'"
        by (subst (asm) lexText.simps, auto simp: Let_def split: if_splits sum.splits)+
      from hands_over_step[OF nr ne l'] have f: "input l' = input l" "Position l' = Position l1 - 1"
        by simp_all
      have "hands_over LexText l" using nr ne True by (simp add: hands_over_def peek_def)
      with fn f adv wd show ?thesis by auto
    next
      case False
      with "1.prems" nr ne have "lexText l1 = Inr (Some fn', l')"
        by (subst (asm) lexText.simps) simp
      from "1.IH"[OF nr refl ne False this] adv show ?thesis by auto
    qed
  qed
qed

lemma lexWhitespace_progress:
  "lexWhitespace l = Inr (Some fn', l') \<Longrightarrow>
     fn' = LexText \<and> input l' = input l \<and> Position l < int (length (input l)) \<and>
     (Position l < Position l' \<or> (Position l' = Position l \<and> hands_over LexWhitespace l))"
proof (induction l rule: lexWhitespace.induct)
  case (1 l)
  from "1.prems" obtain r l1 where nr: "next_rune l = Inr (r, l1)"
    by (subst (asm) lexWhitespace.simps) (auto split: sum.splits)
  show ?case
  proof (cases "r = eof")
    case True
    with "1.prems" nr have "lexEOF WhiteSpace l1 = Inr (Some fn', l')"
      by (subst (asm) lexWhitespace.simps) simp
    then show ?thesis using lexEOF_result by blast
  next
    case ne: False
    note adv = next_rune_advances[OF nr ne] and wd = next_rune_width[OF nr ne]
    show ?thesis
    proof (cases "IsSpace r")
      case False
      with "1.prems" nr ne have fn: "fn' = LexText"
        and l': "l' = backup l1 \<or> emit WhiteSpace (backup l1) = Inr l'"
        by (subst (asm) lexWhitespace.simps, auto simp: Let_def split: if_splits sum.splits)+
      from hands_over_step[OF nr ne l'] have f: "input l' = input l" "Position l' = Position l1 - 1"
        by simp_all
      have "hands_over LexWhitespace l" using nr ne False by (simp add: hands_over_def peek_def)
      with fn f adv wd show ?thesis by auto
    next
      case True
      with "1.prems" nr ne have "lexWhitespace l1 = Inr (Some fn', l')"
        by (subst (asm) lexWhitespace.simps) simp
      from "1.IH"[OF nr refl ne _ this] True adv show ?thesis by auto
    qed
  qed
qed

lemma hands_over_flip:
  assumes "input l' = input l" and "Position l' = Position l"
  shows "hands_over LexText l \<Longrightarrow> \<not> hands_over LexWhitespace l'"
    and "hands_over LexWhitespace l \<Longrightarrow> \<not> hands_over LexText l'"
  using peek_cong[OF assms] by (auto simp: hands_over_def split: option.splits)

lemma call_decreases:
  assumes "call fn l = Inr (fn', l')"
  shows "scan_measure (fn', l') < scan_measure (Some fn, l)"
proof (cases fn')
  case None
  then show ?thesis by (simp add: scan_measure_def)
next
  case (Some g)
  show ?thesis
  proof (cases fn)
    case LexText
    with assms Some have "lexText l = Inr (Some g, l')" by simp
    from lexText_progress[OF this] hands_over_flip(1)[of l' l]
    show ?thesis using Some LexText by (auto simp: scan_measure_def)
  next
    case LexWhitespace
    with assms Some have "lexWhitespace l = Inr (Some g, l')" by simp
    from lexWhitespace_progress[OF this] hands_over_flip(2)[of l' l]
    show ?thesis using Some LexWhitespace by (auto simp: scan_measure_def)
  qed
qed

function scan_loop :: "stateFn option \<Rightarrow> Lexer \<Rightarrow> panic + Lexer" where
  "scan_loop None l = Inr l"
| "scan_loop (Some fn) l =
    (case call fn l of
       Inl e \<Rightarrow> Inl e
     | Inr (fn', l') \<Rightarrow> scan_loop fn' l')"
  by pat_completeness auto
termination
proof (relation "measure scan_measure")
  show "wf (measure scan_measure)" by simp
next
  fix fn l x2 fn' l'
  assume "call fn l = Inr x2" "(fn', l') = x2"
  then have "call fn l = Inr (fn', l')" by simp
  from call_decreases[OF this]
  show "((fn', l'), (Some fn, l)) \<in> measure scan_measure" by simp
qed

text \<open>
  \<open>scan\<close> runs state functions from \<open>lexText\<close> on until one returns \<open>nil\<close>,
  and closes the channel: the sequence of items is complete.
\<close>

definition scan :: "Lexer \<Rightarrow> panic + Lexer" where
  "scan l = scan_loop (Some LexText) l"

definition Lex :: "string \<Rightarrow> panic + Lexer" where
  "Lex inp = scan \<lparr>input = inp, start = 0, Position = 0, width = 0,
     state = Some LexText, Items = []\<rparr>"

section \<open>Reverse\<close>

text \<open>
  The conversion \<open>[]rune(s)\<close> decodes \<open>s\<close> rune by rune (an invalid byte gives
  \<open>RuneError\<close>), and \<open>string(r)\<close> concatenates the UTF-8 encodings of the runes
  (a surrogate or a value out of range is encoded as \<open>RuneError\<close>).
\<close>

function runes_of :: "string \<Rightarrow> rune list" where
  "runes_of s =
    (if s = [] then []
     else case DecodeRuneInString s of (r, w) \<Rightarrow> r # runes_of (drop (nat w) s))"
  by pat_completeness auto
termination
proof (relation "measure length", goal_cases)
  case 1
  show ?case by simp
next
  case (2 s r w)
  then have "DecodeRuneInString s = (r, w)" and ne: "s \<noteq> []" by simp_all
  from DecodeRuneInString_width[OF this] ne
  show ?case by simp
qed

declare runes_of.simps [simp del]

definition encode_rune :: "rune \<Rightarrow> string" where
  "encode_rune r =
    (if 0 \<le> r \<and> r \<le> 0x7F then [char_of r]
     else if 0 \<le> r \<and> r \<le> 0x7FF then
       [char_of (0xC0 OR drop_bit 6 r), char_of (0x80 OR (r AND 0x3F))]
     else if r < 0 \<or> 0x10FFFF < r \<or> (0xD800 \<le> r \<and> r \<le> 0xDFFF) then
       [CHR 0xEF, CHR 0xBF, CHR 0xBD]
     else if r \<le> 0xFFFF then
       [char_of (0xE0 OR drop_bit 12 r), char_of (0x80 OR (drop_bit 6 r AND 0x3F)),
        char_of (0x80 OR (r AND 0x3F))]
     else
       [char_of (0xF0 OR drop_bit 18 r), char_of (0x80 OR (drop_bit 12 r AND 0x3F)),
        char_of (0x80 OR (drop_bit 6 r AND 0x3F)), char_of (0x80 OR (r AND 0x3F))])"

definition string_of_runes :: "rune list \<Rightarrow> string" where
  "string_of_runes rs = concat (map encode_rune rs)"

function reverse_loop :: "rune list \<Rightarrow> int \<Rightarrow> int \<Rightarrow> panic + rune list" where
  "reverse_loop r i j =
    (if i < int (length r) div 2 then
       (if 0 \<le> i \<and> i < int (length r) \<and> 0 \<le> j \<and> j < int (length r) then
          reverse_loop (r[nat i := r ! nat j, nat j := r ! nat i]) (i + 1) (j - 1)
        else Inl IndexOutOfRange)
     else Inr r)"
  by pat_completeness auto
termination
  by (relation "measure (\<lambda>(r, i, j). nat (int (length r) div 2 - i))") auto

declare reverse_loop.simps [simp del]

definition Reverse :: "string \<Rightarrow> panic + string" where
  "Reverse s =
    (let r = runes_of s in
     case reverse_loop r 0 (int (length r) - 1) of
       Inl e \<Rightarrow> Inl e
     | Inr r' \<Rightarrow> Inr (string_of_runes r'))"

section \<open>Package parser\<close>

text \<open>
  The value \<open>fmt.Errorf(format, arg)\<close> returns: the format and its argument, kept
  apart (the text the \<open>%q\<close> verb produces is the standard library's business).
\<close>

datatype error = Errorf string string

record parser =
  result :: string
  lex :: Lexer
  errItem :: "Item option"

text \<open>
  The loop \<open>for item := range p.lex.Items\<close> receives the items in the order they were
  sent and ends when the channel is closed and empty; \<open>sb\<close> is the
  \<open>strings.Builder\<close>.
\<close>

fun parse_loop :: "string \<Rightarrow> Item list \<Rightarrow> parser \<Rightarrow> panic + parser" where
  "parse_loop sb [] p = Inr p"
| "parse_loop sb (item # rest) p =
    (case Kind item of
       EOF \<Rightarrow> Inr (p\<lparr>result := sb\<rparr>)
     | ItemError \<Rightarrow> Inr (p\<lparr>errItem := Some item\<rparr>)
     | Text \<Rightarrow>
         (case Reverse (Value item) of
            Inl e \<Rightarrow> Inl e
          | Inr v \<Rightarrow> parse_loop (sb @ v) rest p)
     | WhiteSpace \<Rightarrow> parse_loop (sb @ Value item) rest p
     | _ \<Rightarrow> parse_loop sb rest p)"

definition parse :: "parser \<Rightarrow> panic + parser" where
  "parse p = parse_loop [] (Items (lex p)) p"

definition Parse :: "string \<Rightarrow> panic + (string \<times> error option)" where
  "Parse text =
    (case Lex text of
       Inl e \<Rightarrow> Inl e
     | Inr l \<Rightarrow>
         (case parse \<lparr>result = [], lex = l, errItem = None\<rparr> of
            Inl e \<Rightarrow> Inl e
          | Inr p \<Rightarrow>
              (case errItem p of
                 Some it \<Rightarrow> Inr ([], Some (Errorf ''error processing the following %q'' (Value it)))
               | None \<Rightarrow> Inr (result p, None))))"

section \<open>Properties of a scan\<close>

text \<open>The pending segment \<open>input[start:Position]\<close>.\<close>

definition pending :: "Lexer \<Rightarrow> string" where
  "pending l = take (nat (Position l - start l)) (drop (nat (start l)) (input l))"

text \<open>A terminal item is the end-of-input marker or an error item.\<close>

definition terminal :: "Item \<Rightarrow> bool" where
  "terminal i = (Kind i = EOF \<or> Kind i = ItemError)"

text \<open>The cursor invariant \<open>start \<le> Position \<le> len(input)\<close>.\<close>

definition cursor_inv :: "Lexer \<Rightarrow> bool" where
  "cursor_inv l = (start l \<le> Position l \<and> Position l \<le> int (length (input l)))"

text \<open>
  Between two steps of a scan that has not reached the end: the cursor invariant, no
  terminal item sent yet, and the values sent so far are the input up to \<open>start\<close>.
\<close>

definition scan_inv :: "Lexer \<Rightarrow> bool" where
  "scan_inv l =
    (0 \<le> start l \<and> cursor_inv l \<and> list_all (\<lambda>i. \<not> terminal i) (Items l) \<and>
     concat (map Value (Items l)) = take (nat (start l)) (input l))"

text \<open>
  Where \<open>next_rune\<close> reports \<open>eof\<close>: at the end of the input, or just behind a NUL
  byte (which decodes to the rune 0, the value of \<open>eof\<close>).
\<close>

definition at_end :: "Lexer \<Rightarrow> bool" where
  "at_end l =
    (Position l = int (length (input l)) \<or>
     (0 < Position l \<and> Position l \<le> int (length (input l)) \<and>
      input l ! nat (Position l - 1) = CHR 0x00))"

text \<open>
  After \<open>lexEOF\<close>: the last item sent is the end-of-input marker with the empty value,
  the items before it are not terminal, and their values are the input up to
  \<open>Position\<close>.
\<close>

definition done_inv :: "Lexer \<Rightarrow> bool" where
  "done_inv l =
    (0 \<le> start l \<and> cursor_inv l \<and> at_end l \<and>
     (\<exists>its. Items l = its @ [\<lparr>item_Position = Position l, Kind = EOF, Value = []\<rparr>] \<and>
        list_all (\<lambda>i. \<not> terminal i) its \<and>
        concat (map Value its) = take (nat (Position l)) (input l)))"


lemma and_low_bits:
  "(x::int) AND 0x1F = x mod 32" "(x::int) AND 0x0F = x mod 16"
  "(x::int) AND 0x07 = x mod 8" "(x::int) AND 0x3F = x mod 64"
proof -
  have "(x::int) AND mask 5 = x mod 2 ^ 5" "(x::int) AND mask 4 = x mod 2 ^ 4"
    "(x::int) AND mask 3 = x mod 2 ^ 3" "(x::int) AND mask 6 = x mod 2 ^ 6"
    by (simp_all only: take_bit_eq_mod flip: take_bit_eq_mask)
  then show "(x::int) AND 0x1F = x mod 32" "(x::int) AND 0x0F = x mod 16"
    "(x::int) AND 0x07 = x mod 8" "(x::int) AND 0x3F = x mod 64"
    by (simp_all add: mask_eq_exp_minus_1)
qed

lemma decode_multi_nonzero:
  assumes "decode_multi s s0 (first_size s0) (accept_lo s0) hi = (r, w)"
    and "0xC2 \<le> s0" and "s0 \<le> 0xF4" and "hi \<le> 0xBF"
  shows "r \<noteq> 0"
  using assms unfolding decode_multi_def Let_def first_size_def accept_lo_def
  by (auto simp: RuneError_def or_eq_0_iff and_low_bits split: if_splits) presburger+

lemma DecodeRuneInString_zero:
  assumes "DecodeRuneInString s = (0, w)" and "s \<noteq> []"
  shows "s ! 0 = CHR 0x00 \<and> w = 1"
proof -
  have "byte (s ! 0) = 0 \<and> w = 1"
    using assms decode_multi_nonzero[of s "byte (s ! 0)" "accept_hi (byte (s ! 0))" 0 w]
    unfolding DecodeRuneInString_def Let_def
    by (auto simp: RuneError_def accept_hi_def split: if_splits)
  then show ?thesis
    by (auto simp: byte_def intro: of_char_eqI[where 'a=int])
qed

lemma DecodeRuneInString_NUL:
  assumes "s \<noteq> []" and "s ! 0 = CHR 0x00"
  shows "DecodeRuneInString s = (0, 1)"
  using assms by (simp add: DecodeRuneInString_def byte_def)

lemma slice_append:
  assumes "0 \<le> a" and "a \<le> b"
  shows "take (nat a) s @ take (nat (b - a)) (drop (nat a) s) = take (nat b) s"
proof -
  have "nat b = nat a + nat (b - a)" using assms by simp
  then show ?thesis by (simp only: take_add)
qed

lemma emit_ok:
  assumes "0 \<le> start l" and "cursor_inv l"
  shows "emit k l = Inr (l\<lparr>Items := Items l @
    [\<lparr>item_Position = start l, Kind = k, Value = pending l\<rparr>], start := Position l\<rparr>)"
  using assms by (simp add: emit_def slice_def ignore_def pending_def cursor_inv_def)

lemma emit_scan_inv:
  assumes "scan_inv l" and "k = Text \<or> k = WhiteSpace"
  shows "\<exists>l'. emit k l = Inr l' \<and> scan_inv l' \<and> input l' = input l \<and>
    Position l' = Position l"
proof -
  from assms(1) have s: "0 \<le> start l" and c: "cursor_inv l"
    and its: "list_all (\<lambda>i. \<not> terminal i) (Items l)"
    and cov: "concat (map Value (Items l)) = take (nat (start l)) (input l)"
    by (simp_all add: scan_inv_def)
  let ?l' = "l\<lparr>Items := Items l @
    [\<lparr>item_Position = start l, Kind = k, Value = pending l\<rparr>], start := Position l\<rparr>"
  have "concat (map Value (Items ?l')) = take (nat (Position l)) (input l)"
    using cov slice_append[of "start l" "Position l" "input l"] s c
    by (simp add: pending_def cursor_inv_def)
  then have "scan_inv ?l'"
    using s c its assms(2) by (auto simp: scan_inv_def cursor_inv_def terminal_def)
  then show ?thesis using emit_ok[OF s c, of k] by simp
qed

lemma lexEOF_done:
  assumes "scan_inv l" and "at_end l" and "k = Text \<or> k = WhiteSpace"
  shows "\<exists>l'. lexEOF k l = Inr (None, l') \<and> done_inv l' \<and> input l' = input l"
proof -
  from emit_scan_inv[OF assms(1,3)] obtain l1 where
    e1: "emit k l = Inr l1" and inv1: "scan_inv l1" and f1: "input l1 = input l"
      "Position l1 = Position l"
    by blast
  from inv1 have s1: "0 \<le> start l1" and c1: "cursor_inv l1" by (simp_all add: scan_inv_def)
  have st1: "start l1 = Position l1" using e1 emit_fields(2,3)[OF e1] by simp
  let ?l2 = "l1\<lparr>Items := Items l1 @
    [\<lparr>item_Position = start l1, Kind = EOF, Value = pending l1\<rparr>], start := Position l1\<rparr>"
  have e2: "emit EOF l1 = Inr ?l2" by (rule emit_ok[OF s1 c1])
  have nolt: "\<not> start l > Position l" using assms(1) by (simp add: scan_inv_def cursor_inv_def)
  have res: "lexEOF k l = Inr (None, ?l2)" using e1 e2 nolt by (simp add: lexEOF_def)
  have "pending l1 = []" using st1 by (simp add: pending_def)
  then have "done_inv ?l2"
    using inv1 st1 f1 assms(2)
    by (simp add: done_inv_def scan_inv_def cursor_inv_def at_end_def)
  then show ?thesis using res f1 by simp
qed

lemma next_rune_scan_inv:
  assumes "scan_inv l"
  shows "\<exists>r l1. next_rune l = Inr (r, l1) \<and> scan_inv l1 \<and> input l1 = input l \<and>
    start l1 = start l \<and> Items l1 = Items l \<and> (r = eof \<longrightarrow> at_end l1)"
proof (cases "Position l \<ge> int (length (input l))")
  case True
  then have "next_rune l = Inr (eof, l\<lparr>width := 0\<rparr>)" by (simp add: next_rune_def)
  moreover have "scan_inv (l\<lparr>width := 0\<rparr>)" "at_end (l\<lparr>width := 0\<rparr>)"
    using assms True by (simp_all add: scan_inv_def cursor_inv_def at_end_def)
  ultimately show ?thesis by simp
next
  case False
  from assms have pos: "0 \<le> Position l" and s: "0 \<le> start l" "start l \<le> Position l"
    by (simp_all add: scan_inv_def cursor_inv_def)
  let ?rest = "drop (nat (Position l)) (input l)"
  obtain r w where dec: "DecodeRuneInString ?rest = (r, w)"
    by (cases "DecodeRuneInString ?rest")
  have ne: "?rest \<noteq> []" using False pos by simp
  from DecodeRuneInString_width[OF dec ne] have w: "1 \<le> w" "w \<le> int (length ?rest)"
    by simp_all
  let ?l1 = "l\<lparr>width := w, Position := Position l + w\<rparr>"
  have nr: "next_rune l = Inr (r, ?l1)"
    using False pos dec by (simp add: next_rune_def slice_def)
  have inv: "scan_inv ?l1"
    using assms w False pos by (simp add: scan_inv_def cursor_inv_def)
  have "at_end ?l1" if "r = eof"
  proof -
    from that dec have "DecodeRuneInString ?rest = (0, w)" by (simp add: eof_def)
    from DecodeRuneInString_zero[OF this ne] have "?rest ! 0 = CHR 0x00" "w = 1" by simp_all
    moreover have "?rest ! 0 = input l ! nat (Position l)" using False pos by simp
    ultimately show ?thesis using False pos by (simp add: at_end_def)
  qed
  with nr inv show ?thesis by simp
qed

lemma boundary_scan_inv:
  assumes "scan_inv l" and "next_rune l = Inr (r, l1)" and "r \<noteq> eof"
    and "k = Text \<or> k = WhiteSpace"
  shows "\<exists>l'. (if Position (backup l1) > start (backup l1)
                then case emit k (backup l1) of Inl e \<Rightarrow> Inl e | Inr l3 \<Rightarrow> Inr (Some g, l3)
                else Inr (Some g, backup l1)) = Inr (Some g, l') \<and>
          scan_inv l' \<and> input l' = input l"
proof -
  note wd = next_rune_width[OF assms(2,3)] and adv = next_rune_advances[OF assms(2,3)]
  from assms(1) have inv: "0 \<le> start l" "start l \<le> Position l"
    "list_all (\<lambda>i. \<not> terminal i) (Items l)"
    "concat (map Value (Items l)) = take (nat (start l)) (input l)"
    by (simp_all add: scan_inv_def cursor_inv_def)
  have b: "scan_inv (backup l1)"
    using inv wd adv by (simp add: scan_inv_def cursor_inv_def backup_fields)
  show ?thesis
  proof (cases "Position (backup l1) > start (backup l1)")
    case True
    from emit_scan_inv[OF b assms(4)] obtain l3 where
      "emit k (backup l1) = Inr l3" "scan_inv l3" "input l3 = input (backup l1)"
      by blast
    with True adv show ?thesis by (simp add: backup_fields)
  next
    case False
    with b adv show ?thesis by (simp add: backup_fields)
  qed
qed

lemma lexText_scan_inv:
  "scan_inv l \<Longrightarrow>
     \<exists>fn' l'. lexText l = Inr (fn', l') \<and> input l' = input l \<and>
       (case fn' of Some g \<Rightarrow> scan_inv l' | None \<Rightarrow> done_inv l')"
proof (induction l rule: lexText.induct)
  case (1 l)
  from next_rune_scan_inv[OF "1.prems"] obtain r l1 where
    nr: "next_rune l = Inr (r, l1)" and inv1: "scan_inv l1" and in1: "input l1 = input l"
    and end1: "r = eof \<longrightarrow> at_end l1"
    by blast
  show ?case
  proof (cases "r = eof")
    case True
    with end1 lexEOF_done[OF inv1, of Text] obtain l' where
      "lexEOF Text l1 = Inr (None, l')" "done_inv l'" "input l' = input l1"
      by auto
    with nr True in1 show ?thesis by (subst lexText.simps) simp
  next
    case ne: False
    show ?thesis
    proof (cases "IsSpace r")
      case True
      from boundary_scan_inv[OF "1.prems" nr ne, of Text LexWhitespace] obtain l' where
        "(if Position (backup l1) > start (backup l1)
          then case emit Text (backup l1) of Inl e \<Rightarrow> Inl e
               | Inr l3 \<Rightarrow> Inr (Some LexWhitespace, l3)
          else Inr (Some LexWhitespace, backup l1)) = Inr (Some LexWhitespace, l')"
        "scan_inv l'" "input l' = input l"
        by auto
      with nr ne True show ?thesis by (subst lexText.simps) (simp add: Let_def)
    next
      case False
      from "1.IH"[OF nr refl ne False inv1] in1 nr ne False show ?thesis
        by (subst lexText.simps) simp
    qed
  qed
qed

lemma lexWhitespace_scan_inv:
  "scan_inv l \<Longrightarrow>
     \<exists>fn' l'. lexWhitespace l = Inr (fn', l') \<and> input l' = input l \<and>
       (case fn' of Some g \<Rightarrow> scan_inv l' | None \<Rightarrow> done_inv l')"
proof (induction l rule: lexWhitespace.induct)
  case (1 l)
  from next_rune_scan_inv[OF "1.prems"] obtain r l1 where
    nr: "next_rune l = Inr (r, l1)" and inv1: "scan_inv l1" and in1: "input l1 = input l"
    and end1: "r = eof \<longrightarrow> at_end l1"
    by blast
  show ?case
  proof (cases "r = eof")
    case True
    with end1 lexEOF_done[OF inv1, of WhiteSpace] obtain l' where
      "lexEOF WhiteSpace l1 = Inr (None, l')" "done_inv l'" "input l' = input l1"
      by auto
    with nr True in1 show ?thesis by (subst lexWhitespace.simps) simp
  next
    case ne: False
    show ?thesis
    proof (cases "IsSpace r")
      case False
      from boundary_scan_inv[OF "1.prems" nr ne, of WhiteSpace LexText] obtain l' where
        "(if Position (backup l1) > start (backup l1)
          then case emit WhiteSpace (backup l1) of Inl e \<Rightarrow> Inl e
               | Inr l3 \<Rightarrow> Inr (Some LexText, l3)
          else Inr (Some LexText, backup l1)) = Inr (Some LexText, l')"
        "scan_inv l'" "input l' = input l"
        by auto
      with nr ne False show ?thesis by (subst lexWhitespace.simps) (simp add: Let_def)
    next
      case True
      from "1.IH"[OF nr refl ne _ inv1] in1 nr ne True show ?thesis
        by (subst lexWhitespace.simps) simp
    qed
  qed
qed

lemma scan_loop_done:
  "scan_inv l \<Longrightarrow> fno \<noteq> None \<Longrightarrow>
     \<exists>l'. scan_loop fno l = Inr l' \<and> input l' = input l \<and> done_inv l'"
proof (induction fno l rule: scan_loop.induct)
  case (1 l)
  then show ?case by simp
next
  case (2 fn l)
  have "\<exists>fn' l'. call fn l = Inr (fn', l') \<and> input l' = input l \<and>
       (case fn' of Some g \<Rightarrow> scan_inv l' | None \<Rightarrow> done_inv l')"
    using lexText_scan_inv[OF "2.prems"(1)] lexWhitespace_scan_inv[OF "2.prems"(1)]
    by (cases fn) simp_all
  then obtain fn' l' where c: "call fn l = Inr (fn', l')" and i: "input l' = input l"
    and r: "case fn' of Some g \<Rightarrow> scan_inv l' | None \<Rightarrow> done_inv l'"
    by blast
  show ?case
  proof (cases fn')
    case None
    with c i r show ?thesis by simp
  next
    case (Some g)
    with r have "scan_inv l'" by simp
    from "2.IH"[OF c refl this] Some c i show ?thesis by simp
  qed
qed

lemma Lex_done:
  "\<exists>l. Lex inp = Inr l \<and> input l = inp \<and> done_inv l"
proof -
  let ?l0 = "\<lparr>input = inp, start = 0, Position = 0, width = 0,
     state = Some LexText, Items = []\<rparr>"
  have "scan_inv ?l0" by (simp add: scan_inv_def cursor_inv_def)
  from scan_loop_done[OF this, of "Some LexText"] show ?thesis
    by (simp add: Lex_def scan_def)
qed

lemma done_inv_items:
  assumes "done_inv l"
  obtains its where "Items l = its @ [\<lparr>item_Position = Position l, Kind = EOF, Value = []\<rparr>]"
    and "list_all (\<lambda>i. \<not> terminal i) its"
    and "concat (map Value its) = take (nat (Position l)) (input l)"
  using assms unfolding done_inv_def by blast

lemma at_end_no_NUL:
  assumes "at_end l" and "CHR 0x00 \<notin> set (input l)"
  shows "Position l = int (length (input l))"
proof (rule ccontr)
  assume "Position l \<noteq> int (length (input l))"
  with assms(1) have "0 < Position l" "Position l \<le> int (length (input l))"
    "input l ! nat (Position l - 1) = CHR 0x00"
    by (simp_all add: at_end_def)
  moreover from this have "nat (Position l - 1) < length (input l)" by simp
  ultimately have "CHR 0x00 \<in> set (input l)" by (metis nth_mem)
  with assms(2) show False by simp
qed

lemma reverse_loop_total:
  "0 \<le> i \<Longrightarrow> j = int (length r) - 1 - i \<Longrightarrow> \<exists>r'. reverse_loop r i j = Inr r'"
proof (induction r i j rule: reverse_loop.induct)
  case (1 r i j)
  show ?case
  proof (cases "i < int (length r) div 2")
    case True
    with "1.prems" have b: "0 \<le> i \<and> i < int (length r) \<and> 0 \<le> j \<and> j < int (length r)"
      by auto
    have "\<exists>r'. reverse_loop (r[nat i := r ! nat j, nat j := r ! nat i]) (i + 1) (j - 1) = Inr r'"
      using "1.prems" by (intro "1.IH"[OF True b]) simp_all
    with True b show ?thesis by (subst reverse_loop.simps) simp
  next
    case False
    then show ?thesis by (subst reverse_loop.simps) simp
  qed
qed

lemma Reverse_total: "\<exists>v. Reverse s = Inr v"
proof -
  obtain r' where "reverse_loop (runes_of s) 0 (int (length (runes_of s)) - 1) = Inr r'"
    using reverse_loop_total[of 0 "int (length (runes_of s)) - 1" "runes_of s"] by auto
  then show ?thesis by (simp add: Reverse_def Let_def)
qed




lemma parse_loop_total: "\<exists>p'. parse_loop sb items p = Inr p'"
proof (induction items arbitrary: sb)
  case Nil
  show ?case by simp
next
  case (Cons item rest)
  obtain v where v: "Reverse (Value item) = Inr v" using Reverse_total by blast
  show ?case using Cons.IH v by (cases "Kind item") simp_all
qed

lemma parse_loop_no_error:
  assumes "errItem p = None" and "list_all (\<lambda>i. Kind i \<noteq> ItemError) items"
  shows "\<exists>p'. parse_loop sb items p = Inr p' \<and> errItem p' = None"
  using assms(2)
proof (induction items arbitrary: sb)
  case Nil
  show ?case using assms(1) by simp
next
  case (Cons item rest)
  obtain v where v: "Reverse (Value item) = Inr v" using Reverse_total by blast
  from Cons.prems have "Kind item \<noteq> ItemError" "list_all (\<lambda>i. Kind i \<noteq> ItemError) rest"
    by simp_all
  with Cons.IH v assms(1) show ?case by (cases "Kind item") simp_all
qed

lemma done_inv_no_error:
  assumes "done_inv l"
  shows "list_all (\<lambda>i. Kind i \<noteq> ItemError) (Items l)"
proof -
  from assms obtain its where
    its: "Items l = its @ [\<lparr>item_Position = Position l, Kind = EOF, Value = []\<rparr>]"
    and nt: "list_all (\<lambda>i. \<not> terminal i) its"
    by (rule done_inv_items)
  from nt have "list_all (\<lambda>i. Kind i \<noteq> ItemError) its"
    by (induction its) (simp_all add: terminal_def)
  with its show ?thesis by simp
qed


lemma next_rune_cases:
  assumes "next_rune l = Inr (r, l1)"
  shows "(int (length (input l)) \<le> Position l \<and> r = eof \<and> l1 = l\<lparr>width := 0\<rparr>) \<or>
    (\<exists>w. 0 \<le> Position l \<and> Position l < int (length (input l)) \<and>
       DecodeRuneInString (drop (nat (Position l)) (input l)) = (r, w) \<and>
       1 \<le> w \<and> Position l + w \<le> int (length (input l)) \<and>
       l1 = l\<lparr>width := w, Position := Position l + w\<rparr>)"
proof (cases "int (length (input l)) \<le> Position l")
  case True
  with assms show ?thesis by (simp add: next_rune_def)
next
  case False
  with assms have nonneg: "0 \<le> Position l"
    by (auto simp: next_rune_def slice_def split: if_splits)
  let ?rest = "drop (nat (Position l)) (input l)"
  obtain r' w where dec: "DecodeRuneInString ?rest = (r', w)"
    by (cases "DecodeRuneInString ?rest")
  have ne: "?rest \<noteq> []" using False nonneg by simp
  from assms False nonneg dec have eqs: "r = r'" "l1 = l\<lparr>width := w, Position := Position l + w\<rparr>"
    by (auto simp: next_rune_def slice_def)
  from DecodeRuneInString_width[OF dec ne] have "1 \<le> w" "w \<le> int (length ?rest)"
    by simp_all
  with False nonneg eqs dec show ?thesis by simp
qed

lemma next_rune_cursor_inv:
  assumes "cursor_inv l" and "next_rune l = Inr (r, l1)"
  shows "cursor_inv l1" and "r \<noteq> eof \<Longrightarrow> cursor_inv (backup l1)"
proof -
  from next_rune_cases[OF assms(2)] assms(1) show "cursor_inv l1"
    by (auto simp: cursor_inv_def)
  assume "r \<noteq> eof"
  with next_rune_cases[OF assms(2)] assms(1) show "cursor_inv (backup l1)"
    by (auto simp: cursor_inv_def backup_def)
qed

lemma emit_cursor_inv:
  assumes "emit k l = Inr l'"
  shows "cursor_inv l'"
  using emit_fields[OF assms] by (simp add: cursor_inv_def)

lemma lexEOF_cursor_inv:
  assumes "lexEOF k l = Inr (fn, l')"
  shows "cursor_inv l'"
  using assms by (auto simp: lexEOF_def split: sum.splits dest: emit_cursor_inv)

lemma lexText_cursor_inv:
  "cursor_inv l \<Longrightarrow> lexText l = Inr (fn', l') \<Longrightarrow> cursor_inv l'"
proof (induction l rule: lexText.induct)
  case (1 l)
  from "1.prems"(2) obtain r l1 where nr: "next_rune l = Inr (r, l1)"
    by (subst (asm) lexText.simps) (auto split: sum.splits)
  note c1 = next_rune_cursor_inv[OF "1.prems"(1) nr]
  show ?case
  proof (cases "r = eof")
    case True
    with "1.prems"(2) nr have "lexEOF Text l1 = Inr (fn', l')"
      by (subst (asm) lexText.simps) simp
    then show ?thesis by (rule lexEOF_cursor_inv)
  next
    case ne: False
    show ?thesis
    proof (cases "IsSpace r")
      case True
      with "1.prems"(2) nr ne have "l' = backup l1 \<or> emit Text (backup l1) = Inr l'"
        by (subst (asm) lexText.simps) (auto simp: Let_def split: if_splits sum.splits)
      with c1(2)[OF ne] show ?thesis by (auto dest: emit_cursor_inv)
    next
      case False
      with "1.prems"(2) nr ne have "lexText l1 = Inr (fn', l')"
        by (subst (asm) lexText.simps) simp
      from "1.IH"[OF nr refl ne False c1(1) this] show ?thesis .
    qed
  qed
qed

lemma lexWhitespace_cursor_inv:
  "cursor_inv l \<Longrightarrow> lexWhitespace l = Inr (fn', l') \<Longrightarrow> cursor_inv l'"
proof (induction l rule: lexWhitespace.induct)
  case (1 l)
  from "1.prems"(2) obtain r l1 where nr: "next_rune l = Inr (r, l1)"
    by (subst (asm) lexWhitespace.simps) (auto split: sum.splits)
  note c1 = next_rune_cursor_inv[OF "1.prems"(1) nr]
  show ?case
  proof (cases "r = eof")
    case True
    with "1.prems"(2) nr have "lexEOF WhiteSpace l1 = Inr (fn', l')"
      by (subst (asm) lexWhitespace.simps) simp
    then show ?thesis by (rule lexEOF_cursor_inv)
  next
    case ne: False
    show ?thesis
    proof (cases "IsSpace r")
      case False
      with "1.prems"(2) nr ne have "l' = backup l1 \<or> emit WhiteSpace (backup l1) = Inr l'"
        by (subst (asm) lexWhitespace.simps) (auto simp: Let_def split: if_splits sum.splits)
      with c1(2)[OF ne] show ?thesis by (auto dest: emit_cursor_inv)
    next
      case True
      with "1.prems"(2) nr ne have "lexWhitespace l1 = Inr (fn', l')"
        by (subst (asm) lexWhitespace.simps) simp
      from "1.IH"[OF nr refl ne _ c1(1) this] True show ?thesis by simp
    qed
  qed
qed

section \<open>The claims\<close>

text \<open>
  C1.  For an input of whitespace and printable text, the values of the non-terminal
  items (those whose kind is neither \<open>EOF\<close> nor \<open>ItemError\<close>) that \<open>Lex\<close> sends,
  concatenated in the order they are sent, are the input.  Whitespace and printable text
  hold no NUL byte, and that is all the proof needs of the input: the theorem is for
  every byte string without a NUL byte (valid UTF-8 or not), and it says as well that
  the scan returns without a panic.
\<close>

theorem segmentation_covers_input:
  assumes "CHR 0x00 \<notin> set inp"
  shows "\<exists>l. Lex inp = Inr l \<and>
    concat (map Value (filter (\<lambda>i. Kind i \<noteq> EOF \<and> Kind i \<noteq> ItemError) (Items l))) = inp"
proof -
  from Lex_done[of inp] obtain l where l: "Lex inp = Inr l" "input l = inp" "done_inv l"
    by blast
  from l(3) obtain its where
    its: "Items l = its @ [\<lparr>item_Position = Position l, Kind = EOF, Value = []\<rparr>]"
    and nt: "list_all (\<lambda>i. \<not> terminal i) its"
    and cov: "concat (map Value its) = take (nat (Position l)) (input l)"
    by (rule done_inv_items)
  from l(3) have "at_end l" by (simp add: done_inv_def)
  from at_end_no_NUL[OF this] assms l(2) have "Position l = int (length inp)" by simp
  with cov l(2) have "concat (map Value its) = inp" by simp
  moreover from nt have "filter (\<lambda>i. Kind i \<noteq> EOF \<and> Kind i \<noteq> ItemError) its = its"
    by (induction its) (simp_all add: terminal_def)
  ultimately show ?thesis using l(1) its by simp
qed

theorem segmentation_covers_input_witness:
  "CHR 0x00 \<notin> set '' go  rocks'' \<and>
   (\<exists>l. Lex '' go  rocks'' = Inr l \<and>
      concat (map Value (filter (\<lambda>i. Kind i \<noteq> EOF \<and> Kind i \<noteq> ItemError) (Items l)))
        = '' go  rocks'')"
  using segmentation_covers_input[of "'' go  rocks''"] by simp

text \<open>
  C2.  The claim is that scanning the empty string sends one item, the end-of-input
  marker.  The code sends two: \<open>lexEOF\<close> emits the pending segment without the test
  \<open>Position > start\<close> that \<open>lexText\<close> and \<open>lexWhitespace\<close> make before they
  emit, so an empty \<open>Text\<close> item comes first.
\<close>

theorem Lex_empty_input:
  "map_sum id Items (Lex []) =
     Inr [\<lparr>item_Position = 0, Kind = Text, Value = []\<rparr>,
          \<lparr>item_Position = 0, Kind = EOF, Value = []\<rparr>]"
  by code_simp

text \<open>
  C3.  The claim is that two consecutive non-empty items before the terminal one never
  have the same kind.  \<open>backup\<close> steps back one byte, not one rune as its comment
  says: on \<open>"a\u00a0b"\<close> (the no-break space U+00A0 is the two bytes C2 A0) text mode stops
  in the middle of the space, sends \<open>"a\xc2"\<close> as \<open>Text\<close>, whitespace mode reads
  the stray byte A0 as a non-space and hands back, and the rest is a second \<open>Text\<close>
  item.
\<close>

theorem Lex_no_break_space:
  "map_sum id Items (Lex [CHR ''a'', CHR 0xC2, CHR 0xA0, CHR ''b'']) =
     Inr [\<lparr>item_Position = 0, Kind = Text, Value = [CHR ''a'', CHR 0xC2]\<rparr>,
          \<lparr>item_Position = 2, Kind = Text, Value = [CHR 0xA0, CHR ''b'']\<rparr>,
          \<lparr>item_Position = 4, Kind = EOF, Value = []\<rparr>]"
  by code_simp

text \<open>
  C4.  For every input the scan terminates (\<open>Lex\<close> returns, and without a panic), the
  last item it sends is a terminal item, and no item before the last is terminal: there
  is exactly one terminal item and nothing follows it.
\<close>

theorem scan_terminates:
  "\<exists>l its t. Lex inp = Inr l \<and> Items l = its @ [t] \<and> terminal t \<and>
     list_all (\<lambda>i. \<not> terminal i) its"
proof -
  from Lex_done[of inp] obtain l where l: "Lex inp = Inr l" "done_inv l" by blast
  from l(2) obtain its where
    "Items l = its @ [\<lparr>item_Position = Position l, Kind = EOF, Value = []\<rparr>]"
    "list_all (\<lambda>i. \<not> terminal i) its"
    by (rule done_inv_items)
  moreover have "terminal \<lparr>item_Position = Position l, Kind = EOF, Value = []\<rparr>"
    by (simp add: terminal_def)
  ultimately show ?thesis using l(1) by blast
qed

text \<open>
  C5.  The claim is that a pending segment of length zero is never emitted, at the end
  of the input either.  On the empty input \<open>lexText\<close> reaches \<open>lexEOF\<close> with
  \<open>start = Position = 0\<close>, and \<open>lexEOF\<close> emits the empty segment as a \<open>Text\<close>
  item before the end-of-input marker.
\<close>

theorem lexText_emits_empty_segment:
  "lexText \<lparr>input = [], start = 0, Position = 0, width = 0,
      state = Some LexText, Items = []\<rparr> =
     Inr (None, \<lparr>input = [], start = 0, Position = 0, width = 0, state = Some LexText,
       Items = [\<lparr>item_Position = 0, Kind = Text, Value = []\<rparr>,
                \<lparr>item_Position = 0, Kind = EOF, Value = []\<rparr>]\<rparr>)"
  by code_simp

text \<open>
  C6, as amended.  When \<open>Position \<ge> len(input)\<close>, \<open>next\<close> returns the sentinel
  \<open>eof\<close>, sets the recorded width to zero and leaves the position where it is.  The
  sentinel is the rune 0, the code point U+0000: within the input \<open>next\<close> returns it,
  with a width of at least one, exactly when the byte at the position is NUL.
\<close>

theorem next_rune_eof:
  "(int (length (input l)) \<le> Position l \<longrightarrow> next_rune l = Inr (eof, l\<lparr>width := 0\<rparr>)) \<and>
   (0 \<le> Position l \<and> Position l < int (length (input l)) \<longrightarrow>
      (\<exists>r l1. next_rune l = Inr (r, l1) \<and> 1 \<le> width l1 \<and>
         (r = eof) = (input l ! nat (Position l) = CHR 0x00)))"
proof (intro conjI impI)
  assume "int (length (input l)) \<le> Position l"
  then show "next_rune l = Inr (eof, l\<lparr>width := 0\<rparr>)" by (simp add: next_rune_def)
next
  assume "0 \<le> Position l \<and> Position l < int (length (input l))"
  then have a: "0 \<le> Position l" "Position l < int (length (input l))" by simp_all
  let ?rest = "drop (nat (Position l)) (input l)"
  obtain r w where dec: "DecodeRuneInString ?rest = (r, w)"
    by (cases "DecodeRuneInString ?rest")
  have ne: "?rest \<noteq> []" using a by simp
  have hd: "?rest ! 0 = input l ! nat (Position l)" using a by simp
  have nr: "next_rune l = Inr (r, l\<lparr>width := w, Position := Position l + w\<rparr>)"
    using a dec by (simp add: next_rune_def slice_def)
  have w: "1 \<le> w" using DecodeRuneInString_width[OF dec ne] by simp
  have "(r = eof) = (input l ! nat (Position l) = CHR 0x00)"
  proof
    assume "r = eof"
    with dec have "DecodeRuneInString ?rest = (0, w)" by (simp add: eof_def)
    from DecodeRuneInString_zero[OF this ne] hd show "input l ! nat (Position l) = CHR 0x00"
      by simp
  next
    assume "input l ! nat (Position l) = CHR 0x00"
    with hd DecodeRuneInString_NUL[OF ne] dec show "r = eof" by (simp add: eof_def)
  qed
  with nr w show "\<exists>r l1. next_rune l = Inr (r, l1) \<and> 1 \<le> width l1 \<and>
         (r = eof) = (input l ! nat (Position l) = CHR 0x00)"
    by simp
qed

theorem next_rune_eof_witness:
  "int (length (input \<lparr>input = ''a'', start = 0, Position = 1, width = 1,
      state = Some LexText, Items = []\<rparr>))
     \<le> Position \<lparr>input = ''a'', start = 0, Position = 1, width = 1,
      state = Some LexText, Items = []\<rparr> \<and>
   next_rune \<lparr>input = ''a'', start = 0, Position = 1, width = 1,
      state = Some LexText, Items = []\<rparr> =
     Inr (eof, \<lparr>input = ''a'', start = 0, Position = 1, width = 0,
      state = Some LexText, Items = []\<rparr>) \<and>
   0 \<le> Position \<lparr>input = ''a b'', start = 0, Position = 1, width = 1,
      state = Some LexText, Items = []\<rparr> \<and>
   Position \<lparr>input = ''a b'', start = 0, Position = 1, width = 1,
      state = Some LexText, Items = []\<rparr>
     < int (length (input \<lparr>input = ''a b'', start = 0, Position = 1, width = 1,
      state = Some LexText, Items = []\<rparr>)) \<and>
   (\<exists>r l1. next_rune \<lparr>input = ''a b'', start = 0, Position = 1, width = 1,
      state = Some LexText, Items = []\<rparr> = Inr (r, l1) \<and> 1 \<le> width l1 \<and>
      (r = eof) = (''a b'' ! 1 = CHR 0x00))"
  using next_rune_eof[of "\<lparr>input = ''a'', start = 0, Position = 1, width = 1,
      state = Some LexText, Items = []\<rparr>"]
    next_rune_eof[of "\<lparr>input = ''a b'', start = 0, Position = 1, width = 1,
      state = Some LexText, Items = []\<rparr>"]
  by simp

text \<open>
  The claim C6 as it is written fails: in the input \<open>"\x00a"\<close> the byte at position 0
  is inside the input, and \<open>next\<close> decodes it to the rune 0, which is the sentinel.
\<close>

theorem next_rune_NUL_is_eof:
  "next_rune \<lparr>input = [CHR 0x00, CHR ''a''], start = 0, Position = 0, width = 0,
      state = Some LexText, Items = []\<rparr> =
     Inr (eof, \<lparr>input = [CHR 0x00, CHR ''a''], start = 0, Position = 1, width = 1,
      state = Some LexText, Items = []\<rparr>)"
  by code_simp


text \<open>
  C8.  \<open>Parse("go rocks")\<close> returns the output \<open>"og skcor"\<close> and a nil error: the
  code points of each word are reversed and the space between them is kept as it is.
\<close>

theorem Parse_go_rocks: "Parse ''go rocks'' = Inr (''og skcor'', None)"
  by code_simp

text \<open>
  C9.  The cursor invariant \<open>start \<le> Position \<le> len(input)\<close> holds at every point
  of a scan.  It holds of the lexer \<open>Lex\<close> builds; each cursor operation keeps it where
  the state functions call it: \<open>ignore\<close> and \<open>emit\<close> anywhere, \<open>next\<close> anywhere, and
  \<open>backup\<close> right after a \<open>next\<close> that did not return \<open>eof\<close> (the only place
  \<open>lexText\<close> and \<open>lexWhitespace\<close> call it); every call of a state function keeps
  it; and it holds of the lexer when the scan has ended.
\<close>

theorem cursor_invariant:
  "cursor_inv \<lparr>input = inp, start = 0, Position = 0, width = 0,
     state = Some LexText, Items = []\<rparr> \<and>
   (cursor_inv l \<longrightarrow>
      cursor_inv (ignore l) \<and>
      (\<forall>r l1. next_rune l = Inr (r, l1) \<longrightarrow>
         cursor_inv l1 \<and> (r \<noteq> eof \<longrightarrow> cursor_inv (backup l1))) \<and>
      (\<forall>k l'. emit k l = Inr l' \<longrightarrow> cursor_inv l') \<and>
      (\<forall>fn fn' l'. call fn l = Inr (fn', l') \<longrightarrow> cursor_inv l')) \<and>
   (\<forall>lf. Lex inp = Inr lf \<longrightarrow> cursor_inv lf)"
proof (intro conjI impI allI)
  show "cursor_inv \<lparr>input = inp, start = 0, Position = 0, width = 0,
     state = Some LexText, Items = []\<rparr>"
    by (simp add: cursor_inv_def)
next
  assume "cursor_inv l"
  then show "cursor_inv (ignore l)" by (simp add: cursor_inv_def ignore_def)
next
  fix r l1
  assume "cursor_inv l" "next_rune l = Inr (r, l1)"
  then show "cursor_inv l1" by (rule next_rune_cursor_inv(1))
next
  fix r l1
  assume "cursor_inv l" "next_rune l = Inr (r, l1)" "r \<noteq> eof"
  then show "cursor_inv (backup l1)" by (rule next_rune_cursor_inv(2))
next
  fix k l'
  assume "emit k l = Inr l'"
  then show "cursor_inv l'" by (rule emit_cursor_inv)
next
  fix fn fn' l'
  assume inv: "cursor_inv l" and c: "call fn l = Inr (fn', l')"
  show "cursor_inv l'"
  proof (cases fn)
    case LexText
    with c have "lexText l = Inr (fn', l')" by simp
    with inv show ?thesis by (rule lexText_cursor_inv)
  next
    case LexWhitespace
    with c have "lexWhitespace l = Inr (fn', l')" by simp
    with inv show ?thesis by (rule lexWhitespace_cursor_inv)
  qed
next
  fix lf
  assume "Lex inp = Inr lf"
  moreover from Lex_done[of inp] obtain l where "Lex inp = Inr l" "done_inv l" by blast
  ultimately have "done_inv lf" by simp
  then show "cursor_inv lf" by (simp add: done_inv_def)
qed

theorem cursor_invariant_witness:
  "cursor_inv \<lparr>input = ''a b'', start = 0, Position = 0, width = 0,
     state = Some LexText, Items = []\<rparr> \<and>
   cursor_inv (ignore \<lparr>input = ''a b'', start = 0, Position = 0, width = 0,
     state = Some LexText, Items = []\<rparr>) \<and>
   next_rune \<lparr>input = ''a b'', start = 0, Position = 0, width = 0,
     state = Some LexText, Items = []\<rparr> =
     Inr (0x61, \<lparr>input = ''a b'', start = 0, Position = 1, width = 1,
       state = Some LexText, Items = []\<rparr>) \<and>
   0x61 \<noteq> eof \<and>
   cursor_inv \<lparr>input = ''a b'', start = 0, Position = 1, width = 1,
     state = Some LexText, Items = []\<rparr> \<and>
   cursor_inv (backup \<lparr>input = ''a b'', start = 0, Position = 1, width = 1,
     state = Some LexText, Items = []\<rparr>) \<and>
   emit Text \<lparr>input = ''a b'', start = 0, Position = 0, width = 0,
     state = Some LexText, Items = []\<rparr> =
     Inr \<lparr>input = ''a b'', start = 0, Position = 0, width = 0, state = Some LexText,
       Items = [\<lparr>item_Position = 0, Kind = Text, Value = []\<rparr>]\<rparr> \<and>
   cursor_inv \<lparr>input = ''a b'', start = 0, Position = 0, width = 0, state = Some LexText,
     Items = [\<lparr>item_Position = 0, Kind = Text, Value = []\<rparr>]\<rparr> \<and>
   call LexText \<lparr>input = ''a b'', start = 0, Position = 0, width = 0,
     state = Some LexText, Items = []\<rparr> =
     Inr (Some LexWhitespace, \<lparr>input = ''a b'', start = 1, Position = 1, width = 1,
       state = Some LexText, Items = [\<lparr>item_Position = 0, Kind = Text, Value = ''a''\<rparr>]\<rparr>) \<and>
   cursor_inv \<lparr>input = ''a b'', start = 1, Position = 1, width = 1,
     state = Some LexText, Items = [\<lparr>item_Position = 0, Kind = Text, Value = ''a''\<rparr>]\<rparr> \<and>
   Lex ''a b'' =
     Inr \<lparr>input = ''a b'', start = 3, Position = 3, width = 0, state = Some LexText,
       Items = [\<lparr>item_Position = 0, Kind = Text, Value = ''a''\<rparr>,
                \<lparr>item_Position = 1, Kind = WhiteSpace, Value = '' ''\<rparr>,
                \<lparr>item_Position = 2, Kind = Text, Value = ''b''\<rparr>,
                \<lparr>item_Position = 3, Kind = EOF, Value = []\<rparr>]\<rparr> \<and>
   cursor_inv \<lparr>input = ''a b'', start = 3, Position = 3, width = 0, state = Some LexText,
       Items = [\<lparr>item_Position = 0, Kind = Text, Value = ''a''\<rparr>,
                \<lparr>item_Position = 1, Kind = WhiteSpace, Value = '' ''\<rparr>,
                \<lparr>item_Position = 2, Kind = Text, Value = ''b''\<rparr>,
                \<lparr>item_Position = 3, Kind = EOF, Value = []\<rparr>]\<rparr>"
proof -
  let ?l0 = "\<lparr>input = ''a b'', start = 0, Position = 0, width = 0,
     state = Some LexText, Items = []\<rparr>"
  let ?l1 = "\<lparr>input = ''a b'', start = 0, Position = 1, width = 1,
     state = Some LexText, Items = []\<rparr>"
  let ?le = "\<lparr>input = ''a b'', start = 0, Position = 0, width = 0, state = Some LexText,
       Items = [\<lparr>item_Position = 0, Kind = Text, Value = []\<rparr>]\<rparr>"
  let ?lt = "\<lparr>input = ''a b'', start = 1, Position = 1, width = 1,
     state = Some LexText, Items = [\<lparr>item_Position = 0, Kind = Text, Value = ''a''\<rparr>]\<rparr>"
  let ?lf = "\<lparr>input = ''a b'', start = 3, Position = 3, width = 0, state = Some LexText,
       Items = [\<lparr>item_Position = 0, Kind = Text, Value = ''a''\<rparr>,
                \<lparr>item_Position = 1, Kind = WhiteSpace, Value = '' ''\<rparr>,
                \<lparr>item_Position = 2, Kind = Text, Value = ''b''\<rparr>,
                \<lparr>item_Position = 3, Kind = EOF, Value = []\<rparr>]\<rparr>"
  note ci = cursor_invariant[of "''a b''" ?l0]
  have i0: "cursor_inv ?l0" using ci by (rule conjunct1)
  have n: "next_rune ?l0 = Inr (0x61, ?l1)" by code_simp
  have ne: "0x61 \<noteq> eof" by (simp add: eof_def)
  have e: "emit Text ?l0 = Inr ?le" by code_simp
  have c: "call LexText ?l0 = Inr (Some LexWhitespace, ?lt)" by code_simp
  have f: "Lex ''a b'' = Inr ?lf" by code_simp
  from ci i0 have "cursor_inv (ignore ?l0)" by blast
  moreover from ci i0 n ne have "cursor_inv ?l1" "cursor_inv (backup ?l1)" by blast+
  moreover from ci i0 e have "cursor_inv ?le" by blast
  moreover from ci i0 c have "cursor_inv ?lt" by blast
  moreover from ci f have "cursor_inv ?lf" by blast
  ultimately show ?thesis using i0 n ne e c f by (intro conjI)
qed

text \<open>
  C10.  For every input no item of kind \<open>ItemError\<close> is sent (no state function calls
  \<open>errorf\<close>), and \<open>Parse\<close> returns a nil error.
\<close>

theorem no_error_item:
  "\<exists>l out. Lex inp = Inr l \<and> list_all (\<lambda>i. Kind i \<noteq> ItemError) (Items l) \<and>
     Parse inp = Inr (out, None)"
proof -
  from Lex_done[of inp] obtain l where l: "Lex inp = Inr l" "done_inv l" by blast
  have ne: "list_all (\<lambda>i. Kind i \<noteq> ItemError) (Items l)"
    by (rule done_inv_no_error[OF l(2)])
  let ?p0 = "\<lparr>result = [], lex = l, errItem = None\<rparr>"
  from parse_loop_no_error[of ?p0 "Items l" "[]"] ne obtain p where
    p: "parse ?p0 = Inr p" "errItem p = None"
    by (auto simp: parse_def)
  with l(1) ne show ?thesis by (simp add: Parse_def)
qed

end
